theory Spec2Isabelle
  imports Complex_Main
begin

section \<open>The asset pool example script\<close>

text \<open>
  A shallow embedding of two functions of \<^verbatim>\<open>bs-assetpool-example.js\<close>,
  \<^verbatim>\<open>progressString\<close> and \<^verbatim>\<open>ensureDirectoryExists\<close>, translated from their source
  text. The pool, the fetcher and the file system are modules the script imports;
  their code is not part of the script.
\<close>

subsection \<open>JavaScript numbers\<close>

text \<open>
  The byte counts of a progress event are non-negative integers below \<open>2 ^ 53\<close>, which
  JavaScript numbers (IEEE 754 binary64) hold exactly. The results of \<^verbatim>\<open>*\<close> and
  \<^verbatim>\<open>/\<close> are rounded to the nearest double, ties to the even mantissa. A product of
  two such integers is again an integer, so it stays a \<open>nat\<close>; a quotient is a
  rational number, \<^verbatim>\<open>NaN\<close> or \<^verbatim>\<open>Infinity\<close>: division never throws.
\<close>

text \<open>The number of binary digits of \<open>n\<close>.\<close>

fun bitLength :: "nat \<Rightarrow> nat" where
  "bitLength n = (if n = 0 then 0 else Suc (bitLength (n div 2)))"

declare bitLength.simps [simp del]

text \<open>The integer nearest to \<open>num / den\<close>, the even one of two that are equally near.\<close>

definition roundHalfEven :: "nat \<Rightarrow> nat \<Rightarrow> nat" where
  "roundHalfEven num den =
     (let q = num div den; r = num mod den
      in if 2 * r < den then q
         else if den < 2 * r then q + 1
         else if even q then q else q + 1)"

text \<open>
  The double nearest to an integer: the integer itself below \<open>2 ^ 53\<close>, and above a
  multiple of the spacing of the doubles at that magnitude, with a mantissa of 53
  bits.
\<close>

definition roundToDouble :: "nat \<Rightarrow> nat" where
  "roundToDouble n =
     (if n < 2 ^ 53 then n
      else (let ulp = 2 ^ (bitLength n - 53) in roundHalfEven n ulp * ulp))"

text \<open>
  The double nearest to \<open>a / b\<close>, for positive \<open>a\<close> and \<open>b\<close>: the quotient is scaled
  by a power of two (up by \<open>2 ^ up\<close>, or down by the power of two in \<open>den\<close>) so that it
  lies between \<open>2 ^ 52\<close> and \<open>2 ^ 53\<close>, rounded to an integer mantissa there, and scaled
  back.
\<close>

definition divideDoubles :: "nat \<Rightarrow> nat \<Rightarrow> rat" where
  "divideDoubles a b =
     (let up = (53 + bitLength b) - bitLength a;
          down = bitLength a - (53 + bitLength b);
          num = a * 2 ^ up;
          den = (if 2 ^ 53 * (b * 2 ^ down) \<le> num then 2 * (b * 2 ^ down) else b * 2 ^ down)
      in of_nat (roundHalfEven num den) * (of_nat den / of_nat b) / 2 ^ up)"

datatype number = Finite rat | NaN | Infinity

text \<open>The operators \<^verbatim>\<open>*\<close> and \<^verbatim>\<open>/\<close> on non-negative integers that are doubles.\<close>

definition js_mul :: "nat \<Rightarrow> nat \<Rightarrow> nat" where
  "js_mul a b = roundToDouble (a * b)"

definition js_div :: "nat \<Rightarrow> nat \<Rightarrow> number" where
  "js_div a b =
     (if b = 0 then (if a = 0 then NaN else Infinity)
      else if a = 0 then Finite 0
      else Finite (divideDoubles a b))"

text \<open>
  The value of an event property that may be missing: a missing property reads as
  \<^verbatim>\<open>undefined\<close>.
\<close>

datatype jsvalue = Undefined | Null | Number nat

datatype js_error = TypeError

definition digit :: "nat \<Rightarrow> char" where
  "digit d = ''0123456789'' ! d"

text \<open>
  \<^verbatim>\<open>Number.prototype.toString\<close> on a non-negative integer below \<open>10 ^ 21\<close>: its
  decimal digits. From \<open>10 ^ 21\<close> on JavaScript prints an exponent, which this function
  does not; the numbers printed for byte counts below \<open>2 ^ 53\<close> are all below
  \<open>10 ^ 21\<close>, as the theorem on \<^verbatim>\<open>progressString\<close> shows.
\<close>

fun toString :: "nat \<Rightarrow> string" where
  "toString n = (if n < 10 then [digit n] else toString (n div 10) @ [digit (n mod 10)])"

declare toString.simps [simp del]

text \<open>
  \<^verbatim>\<open>toFixed(0)\<close> on a non-negative number below \<open>10 ^ 21\<close>: the nearest integer, the
  larger one on a tie, in decimal digits; a number that is not finite is rendered by
  name.
\<close>

fun toFixed0 :: "number \<Rightarrow> string" where
  "toFixed0 (Finite q) = toString (nat \<lfloor>q + 1 / 2\<rfloor>)"
| "toFixed0 NaN = ''NaN''"
| "toFixed0 Infinity = ''Infinity''"

subsection \<open>Decimal numerals\<close>

text \<open>
  What a string of digits denotes, read from the left; a decimal numeral is a
  non-empty string of digits with no leading zero, but for \<open>0\<close> itself. Each number
  has one decimal numeral.
\<close>

definition digitValue :: "char \<Rightarrow> nat" where
  "digitValue c = of_char c - 48"

definition decimalValue :: "string \<Rightarrow> nat" where
  "decimalValue s = foldl (\<lambda>v c. 10 * v + digitValue c) 0 s"

definition isDigit :: "char \<Rightarrow> bool" where
  "isDigit c \<longleftrightarrow> c \<in> set ''0123456789''"

definition isDecimal :: "string \<Rightarrow> bool" where
  "isDecimal s \<longleftrightarrow> s \<noteq> [] \<and> list_all isDigit s \<and> (hd s = CHR ''0'' \<longrightarrow> s = ''0'')"

definition denotes :: "string \<Rightarrow> nat \<Rightarrow> bool" where
  "denotes s n \<longleftrightarrow> isDecimal s \<and> decimalValue s = n"

subsection \<open>Events\<close>

record fetch_event =
  index :: nat
  fileName :: string

record progress_event = fetch_event +
  total :: nat
  currentFileTransferred :: nat
  currentFileTotal :: jsvalue

subsection \<open>progressString\<close>

text \<open>
  \<^verbatim>\<open>
  function progressString(event)
  {
      if (event.currentFileTotal === undefined) {
          return event.currentFileTransferred.toString() + " of unknown";
      } else {
          return event.currentFileTransferred.toString() + " of "
              + event.currentFileTotal.toString() + " "
              + (100*event.currentFileTransferred / event.currentFileTotal).toFixed(0) + "%";
      }
  }
  \<close>
  The comparison is strict, so \<^verbatim>\<open>null\<close> takes the second branch, where calling a
  method on it throws. The fetcher's progress events carry a number or nothing there.
\<close>

definition progressString :: "progress_event \<Rightarrow> js_error + string" where
  "progressString event =
     (case currentFileTotal event of
        Undefined \<Rightarrow> Inr (toString (currentFileTransferred event) @ '' of unknown'')
      | Null \<Rightarrow> Inl TypeError
      | Number m \<Rightarrow>
          Inr (toString (currentFileTransferred event) @ '' of '' @ toString m @ '' ''
               @ toFixed0 (js_div (js_mul 100 (currentFileTransferred event)) m) @ ''%''))"

subsection \<open>ensureDirectoryExists\<close>

text \<open>What \<^verbatim>\<open>fs.mkdirSync\<close> throws: an error object, whose \<^verbatim>\<open>code\<close> may be missing.\<close>

record js_exception =
  message :: string
  code :: "string option"

text \<open>
  \<^verbatim>\<open>
  function ensureDirectoryExists(path) {
      try {
          fs.mkdirSync(path);
      } catch (err)
      {
          if (err.code != 'EEXIST')
              throw(err);
      }
  }
  \<close>
  \<^verbatim>\<open>fs.mkdirSync\<close> belongs to the platform; it is a parameter here, a function from
  the state of the file system and a path to either the exception it throws or the
  new state. A call that throws leaves the state as it was.
\<close>

definition ensureDirectoryExists ::
  "('fs \<Rightarrow> string \<Rightarrow> js_exception + 'fs) \<Rightarrow> 'fs \<Rightarrow> string \<Rightarrow> js_exception + 'fs" where
  "ensureDirectoryExists mkdirSync fs path =
     (case mkdirSync fs path of
        Inr fs' \<Rightarrow> Inr fs'
      | Inl err \<Rightarrow> (if code err \<noteq> Some ''EEXIST'' then Inl err else Inr fs))"

text \<open>
  A small file system to run the function on: the paths that exist, and whether the
  device is mounted read-only. \<^verbatim>\<open>mkdir\<close> on a path that exists fails with
  \<^verbatim>\<open>EEXIST\<close>, on a read-only device with \<^verbatim>\<open>EROFS\<close>.
\<close>

record filesystem =
  existing :: "string list"
  readonly :: bool

definition mkdirSync_flat :: "filesystem \<Rightarrow> string \<Rightarrow> js_exception + filesystem" where
  "mkdirSync_flat fs path =
     (if path \<in> set (existing fs)
      then Inl \<lparr>message = ''file already exists'', code = Some ''EEXIST''\<rparr>
      else if readonly fs
      then Inl \<lparr>message = ''read-only file system'', code = Some ''EROFS''\<rparr>
      else Inr (fs\<lparr>existing := path # existing fs\<rparr>))"

section \<open>Properties of the arithmetic\<close>

lemma bitLength_upper: "n < 2 ^ bitLength n"
proof (induction n rule: bitLength.induct)
  case (1 n)
  show ?case
  proof (cases "n = 0")
    case True
    then show ?thesis by (simp add: bitLength.simps)
  next
    case False
    with 1 have "n div 2 < 2 ^ bitLength (n div 2)" by simp
    then have "n < 2 * 2 ^ bitLength (n div 2)" by linarith
    with False show ?thesis by (simp add: bitLength.simps [of n])
  qed
qed

lemma bitLength_lower: "0 < n \<Longrightarrow> 2 ^ bitLength n \<le> 2 * n"
proof (induction n rule: bitLength.induct)
  case (1 n)
  show ?case
  proof (cases "n div 2 = 0")
    case True
    with 1 have "n = 1" by linarith
    then show ?thesis by (simp add: bitLength.simps)
  next
    case False
    with 1 have "2 ^ bitLength (n div 2) \<le> 2 * (n div 2)" by simp
    then have "2 * 2 ^ bitLength (n div 2) \<le> 2 * n" by linarith
    with 1 show ?thesis by (simp add: bitLength.simps [of n])
  qed
qed

lemma roundHalfEven_near:
  assumes "0 < den"
  shows "2 * (roundHalfEven num den * den) \<le> 2 * num + den"
    and "2 * num \<le> 2 * (roundHalfEven num den * den) + den"
proof -
  have n: "num = num div den * den + num mod den" by simp
  have r: "num mod den < den" using assms by simp
  define q where "q = num div den"
  define m where "m = num mod den"
  have n': "num = q * den + m" and r': "m < den" using n r by (simp_all add: q_def m_def)
  have eq: "roundHalfEven num den =
      (if 2 * m < den then q else if den < 2 * m then q + 1 else if even q then q else q + 1)"
    by (simp add: roundHalfEven_def Let_def q_def m_def)
  consider "roundHalfEven num den = q" "2 * m \<le> den"
    | "roundHalfEven num den = q + 1" "den \<le> 2 * m"
    using eq by (auto split: if_splits)
  then show "2 * (roundHalfEven num den * den) \<le> 2 * num + den"
  proof cases
    case 1
    then show ?thesis using n' by (simp add: algebra_simps)
  next
    case 2
    then show ?thesis using n' by (simp add: algebra_simps)
  qed
  consider "roundHalfEven num den = q" "2 * m \<le> den"
    | "roundHalfEven num den = q + 1" "den \<le> 2 * m"
    using eq by (auto split: if_splits)
  then show "2 * num \<le> 2 * (roundHalfEven num den * den) + den"
  proof cases
    case 1
    then show ?thesis using n' by (simp add: algebra_simps)
  next
    case 2
    then show ?thesis using n' r' by (simp add: algebra_simps)
  qed
qed

lemma roundHalfEven_exact:
  assumes "0 < den" and "num = c * den"
  shows "roundHalfEven num den = c"
  using assms by (simp add: roundHalfEven_def Let_def)

lemma roundToDouble_small: "n < 2 ^ 53 \<Longrightarrow> roundToDouble n = n"
  by (simp add: roundToDouble_def)

text \<open>The shape of a quotient: mantissa, and the two scale factors, with what is known of them.\<close>

lemma divideDoubles_shape:
  assumes "0 < a" and "0 < b"
  obtains u d where
    "divideDoubles a b = of_nat (roundHalfEven (a * 2 ^ u) (b * 2 ^ d)) * 2 ^ d / 2 ^ u"
    "2 ^ 52 * (b * 2 ^ d) \<le> a * 2 ^ u"
proof -
  define la where "la = bitLength a"
  define lb where "lb = bitLength b"
  define up where "up = (53 + lb) - la"
  define down where "down = la - (53 + lb)"
  define num where "num = a * 2 ^ up"
  define d where "d = (if 2 ^ 53 * (b * 2 ^ down) \<le> num then Suc down else down)"
  have den: "(if 2 ^ 53 * (b * 2 ^ down) \<le> num then 2 * (b * 2 ^ down) else b * 2 ^ down) = b * 2 ^ d"
    by (simp add: d_def)
  have "divideDoubles a b = of_nat (roundHalfEven num (b * 2 ^ d)) * (of_nat (b * 2 ^ d) / of_nat b) / 2 ^ up"
    unfolding divideDoubles_def Let_def la_def [symmetric] lb_def [symmetric]
      up_def [symmetric] down_def [symmetric] num_def [symmetric] den ..
  also have "of_nat (b * 2 ^ d) / (of_nat b :: rat) = 2 ^ d"
    using assms(2) by simp
  finally have shape: "divideDoubles a b = of_nat (roundHalfEven (a * 2 ^ up) (b * 2 ^ d)) * 2 ^ d / 2 ^ up"
    by (simp add: num_def)
  have ub: "b < 2 ^ lb" unfolding lb_def by (rule bitLength_upper)
  have la: "2 ^ la \<le> 2 * a" unfolding la_def using assms(1) by (rule bitLength_lower)
  have base: "2 ^ 52 * (b * 2 ^ down) \<le> a * 2 ^ up"
  proof (cases "la \<le> 53 + lb")
    case True
    then have dn: "down = 0" and up: "la + up = 53 + lb" by (simp_all add: down_def up_def)
    have "2 ^ 53 * b \<le> 2 ^ 53 * 2 ^ lb" using ub by simp
    also have "\<dots> = 2 ^ la * 2 ^ up" using up by (metis power_add)
    also have "\<dots> \<le> 2 * a * 2 ^ up" using la by simp
    finally have "2 * (2 ^ 52 * b) \<le> 2 * (a * 2 ^ up)" by simp
    then show ?thesis using dn by simp
  next
    case False
    then have up: "up = 0" and dn: "la = 53 + lb + down" by (simp_all add: down_def up_def)
    have "2 * (2 ^ 52 * (b * 2 ^ down)) = 2 ^ 53 * b * 2 ^ down" by simp
    also have "\<dots> \<le> 2 ^ 53 * 2 ^ lb * 2 ^ down" using ub by simp
    also have "\<dots> = 2 ^ la" using dn by (simp add: power_add)
    also have "\<dots> \<le> 2 * a" by (rule la)
    finally show ?thesis using up by simp
  qed
  have "2 ^ 52 * (b * 2 ^ d) \<le> a * 2 ^ up"
  proof (cases "2 ^ 53 * (b * 2 ^ down) \<le> num")
    case True
    then have "d = Suc down" by (simp add: d_def)
    with True show ?thesis by (simp add: num_def)
  next
    case False
    then have "d = down" by (simp add: d_def)
    with base show ?thesis by simp
  qed
  with shape show thesis by (rule that)
qed

lemma divideDoubles_le:
  assumes "0 < a" and "0 < b"
  shows "divideDoubles a b \<le> 2 * of_nat a / of_nat b"
proof -
  obtain u d where shape: "divideDoubles a b = of_nat (roundHalfEven (a * 2 ^ u) (b * 2 ^ d)) * 2 ^ d / 2 ^ u"
    and norm: "2 ^ 52 * (b * 2 ^ d) \<le> a * 2 ^ u"
    using divideDoubles_shape [OF assms] by blast
  define M where "M = roundHalfEven (a * 2 ^ u) (b * 2 ^ d)"
  have pos: "0 < b * 2 ^ d" using assms(2) by simp
  have "2 * (M * (b * 2 ^ d)) \<le> 2 * (a * 2 ^ u) + b * 2 ^ d"
    unfolding M_def using pos by (rule roundHalfEven_near)
  also have "b * 2 ^ d \<le> 2 ^ 52 * (b * 2 ^ d)" by simp
  finally have "2 * (M * (b * 2 ^ d)) \<le> 4 * (a * 2 ^ u)" using norm by simp
  then have "M * 2 ^ d * b \<le> 2 * a * 2 ^ u" by (simp add: algebra_simps)
  then have "(of_nat (M * 2 ^ d * b) :: rat) \<le> of_nat (2 * a * 2 ^ u)" by (rule of_nat_mono)
  then have "(of_nat M * 2 ^ d * of_nat b :: rat) \<le> 2 * of_nat a * 2 ^ u" by simp
  then have "(of_nat M * 2 ^ d / 2 ^ u :: rat) \<le> 2 * of_nat a / of_nat b"
    using assms(2) by (simp add: field_simps)
  then show ?thesis by (simp add: shape M_def)
qed

lemma divideDoubles_percent:
  assumes "0 < a" and "a < 2 ^ 52" and "0 < b"
  shows "nat \<lfloor>divideDoubles a b + 1 / 2\<rfloor> = (2 * a + b) div (2 * b)"
proof -
  obtain u d where shape: "divideDoubles a b = of_nat (roundHalfEven (a * 2 ^ u) (b * 2 ^ d)) * 2 ^ d / 2 ^ u"
    and norm: "2 ^ 52 * (b * 2 ^ d) \<le> a * 2 ^ u"
    using divideDoubles_shape [OF assms(1,3)] by blast
  define M where "M = roundHalfEven (a * 2 ^ u) (b * 2 ^ d)"
  define U :: nat where "U = 2 ^ u"
  define D :: nat where "D = 2 ^ d"
  define k where "k = (2 * a + b) div (2 * b)"
  have Upos: "0 < U" and Dpos: "0 < D" by (simp_all add: U_def D_def)
  have near1: "2 * (M * (b * D)) \<le> 2 * (a * U) + b * D"
    and near2: "2 * (a * U) \<le> 2 * (M * (b * D)) + b * D"
    unfolding M_def U_def D_def using assms(3) by (simp_all add: roundHalfEven_near)
  have "2 ^ 52 * (b * D) \<le> a * U" using norm by (simp add: U_def D_def)
  also have "a * U < 2 ^ 52 * U" using assms(2) Upos by simp
  finally have bD: "b * D < U" by simp
  have "D \<le> b * D" using assms(3) by (cases b) simp_all
  with bD have "D < U" by linarith
  then have "d < u" by (simp add: U_def D_def)
  then have "U = 2 * D * 2 ^ (u - Suc d)"
    unfolding U_def D_def by (metis Suc_leI le_add_diff_inverse power_Suc power_add)
  then obtain c where c: "U = 2 * D * c" by blast
  have k1: "2 * b * k \<le> 2 * a + b" unfolding k_def by simp
  have "2 * a + b < 2 * b + 2 * b * ((2 * a + b) div (2 * b))"
    using assms(3) by (intro dividend_less_times_div) simp
  then have k2: "2 * a + b < 2 * b * Suc k" by (simp add: k_def)
  define P where "P = M * (b * D)"
  define X where "X = a * U"
  define Y where "Y = b * D"
  define Z where "Z = b * (k * U)"
  define W where "W = b * U"
  have n1: "2 * P \<le> 2 * X + Y" and n2: "2 * X \<le> 2 * P + Y"
    using near1 near2 by (simp_all add: P_def X_def Y_def)
  have YU: "Y < U" using bD by (simp add: Y_def)
  have upper: "2 * (M * D) + U < 2 * Suc k * U"
  proof -
    from k2 have "2 * a + 1 \<le> 2 * b * k + b" by simp
    then have "(2 * a + 1) * U \<le> (2 * b * k + b) * U" by (rule mult_le_mono1)
    then have "2 * X + U \<le> 2 * Z + W" by (simp add: X_def Z_def W_def algebra_simps)
    with n1 YU have "2 * P < 2 * Z + W" by linarith
    then have "b * (2 * (M * D)) < b * (2 * k * U + U)"
      by (simp add: P_def Z_def W_def algebra_simps)
    then have "2 * (M * D) < 2 * k * U + U" by simp
    then show ?thesis by simp
  qed
  have lower: "2 * k * U \<le> 2 * (M * D) + U"
  proof (cases "2 * a + b = 2 * b * k")
    case True
    with assms(1) have "k \<noteq> 0" by (cases k) simp_all
    then obtain j where j: "k = Suc j" by (cases k) simp_all
    with True have a2: "2 * a = b * (2 * j + 1)" by simp
    have "2 * (a * U) = 2 * (((2 * j + 1) * c) * (b * D))"
      using a2 c by (metis (no_types, lifting) mult.assoc mult.commute mult.left_commute)
    then have "a * 2 ^ u = ((2 * j + 1) * c) * (b * 2 ^ d)" by (simp add: U_def D_def)
    then have "M = (2 * j + 1) * c"
      unfolding M_def using assms(3) by (intro roundHalfEven_exact) simp_all
    then have "2 * (M * D) + U = 2 * k * U" using c j by (simp add: algebra_simps)
    then show ?thesis by simp
  next
    case False
    with k1 have "2 * b * k + 1 \<le> 2 * a + b" by simp
    then have "(2 * b * k + 1) * U \<le> (2 * a + b) * U" by (rule mult_le_mono1)
    then have "2 * Z + U \<le> 2 * X + W" by (simp add: X_def Z_def W_def algebra_simps)
    with n2 YU have "2 * Z < 2 * P + W" by linarith
    then have "b * (2 * k * U) < b * (2 * (M * D) + U)"
      by (simp add: P_def Z_def W_def algebra_simps)
    then have "2 * k * U < 2 * (M * D) + U" by simp
    then show ?thesis by simp
  qed
  have "(2 * (M * D) + U) div (2 * U) = k"
    using lower upper by (intro div_nat_eqI) (simp_all add: algebra_simps)
  moreover have "divideDoubles a b + 1 / 2 = of_nat (2 * (M * D) + U) / of_nat (2 * U)"
    using Upos by (simp add: shape M_def U_def D_def field_simps)
  ultimately have "\<lfloor>divideDoubles a b + 1 / 2\<rfloor> = int k"
    by (simp only: floor_divide_of_nat_eq)
  then show ?thesis by (simp add: k_def)
qed

lemma roundToDouble_error:
  "2 ^ 53 * \<bar>int (roundToDouble n) - int n\<bar> \<le> int n"
proof (cases "n < 2 ^ 53")
  case True
  then show ?thesis by (simp add: roundToDouble_def)
next
  case False
  define ulp :: nat where "ulp = 2 ^ (bitLength n - 53)"
  define M where "M = roundHalfEven n ulp"
  have r: "roundToDouble n = M * ulp"
    using False by (simp add: roundToDouble_def ulp_def M_def Let_def)
  have pos: "0 < ulp" by (simp add: ulp_def)
  have npos: "0 < n" using False by (cases n) simp_all
  have "n < 2 ^ bitLength n" by (rule bitLength_upper)
  have "53 < bitLength n"
  proof (rule ccontr)
    assume "\<not> 53 < bitLength n"
    then have "(2::nat) ^ bitLength n \<le> 2 ^ 53" by (intro power_increasing) simp_all
    with \<open>n < 2 ^ bitLength n\<close> False show False by linarith
  qed
  then have "2 ^ 53 * ulp = (2::nat) ^ bitLength n"
    unfolding ulp_def by (metis le_add_diff_inverse less_imp_le_nat power_add)
  with bitLength_lower [OF npos] have u: "2 ^ 53 * ulp \<le> 2 * n" by simp
  have n1: "2 * (M * ulp) \<le> 2 * n + ulp" and n2: "2 * n \<le> 2 * (M * ulp) + ulp"
    unfolding M_def using pos by (rule roundHalfEven_near)+
  define R where "R = M * ulp"
  have f: "2 * R \<le> 2 * n + ulp" "2 * n \<le> 2 * R + ulp" "9007199254740992 * ulp \<le> 2 * n"
    using n1 n2 u by (simp_all add: R_def)
  have g1: "2 * \<bar>int R - int n\<bar> \<le> int ulp" using f(1,2) by arith
  have g2: "9007199254740992 * int ulp \<le> 2 * int n" using f(3) by arith
  from g1 g2 have "9007199254740992 * \<bar>int R - int n\<bar> \<le> int n" by linarith
  then show ?thesis by (simp add: r R_def)
qed

lemma divideDoubles_error:
  assumes "0 < a" and "0 < b"
  shows "2 ^ 53 * \<bar>divideDoubles a b - of_nat a / of_nat b\<bar> \<le> of_nat a / of_nat b"
proof -
  obtain u d where shape: "divideDoubles a b = of_nat (roundHalfEven (a * 2 ^ u) (b * 2 ^ d)) * 2 ^ d / 2 ^ u"
    and norm: "2 ^ 52 * (b * 2 ^ d) \<le> a * 2 ^ u"
    using divideDoubles_shape [OF assms] by blast
  define M where "M = roundHalfEven (a * 2 ^ u) (b * 2 ^ d)"
  define U :: nat where "U = 2 ^ u"
  define D :: nat where "D = 2 ^ d"
  have Upos: "0 < U" and Dpos: "0 < D" by (simp_all add: U_def D_def)
  have near1: "2 * (M * (b * D)) \<le> 2 * (a * U) + b * D"
    and near2: "2 * (a * U) \<le> 2 * (M * (b * D)) + b * D"
    unfolding M_def U_def D_def using assms(2) by (simp_all add: roundHalfEven_near)
  have nrm: "2 ^ 52 * (b * D) \<le> a * U" using norm by (simp add: U_def D_def)
  define P where "P = M * (b * D)"
  define X where "X = a * U"
  define Y where "Y = b * D"
  have f: "2 * P \<le> 2 * X + Y" "2 * X \<le> 2 * P + Y" "4503599627370496 * Y \<le> X"
    using near1 near2 nrm by (simp_all add: P_def X_def Y_def)
  have g1: "2 * \<bar>int P - int X\<bar> \<le> int Y" using f(1,2) by arith
  have g2: "4503599627370496 * int Y \<le> int X" using f(3) by arith
  from g1 g2 have "9007199254740992 * \<bar>int P - int X\<bar> \<le> int X" by linarith
  then have i: "2 ^ 53 * \<bar>int P - int X\<bar> \<le> int X" by simp
  have "(of_int (2 ^ 53 * \<bar>int P - int X\<bar>) :: rat) \<le> of_int (int X)"
    using i by (rule of_int_le_iff [THEN iffD2])
  then have r: "2 ^ 53 * \<bar>(of_nat P - of_nat X :: rat)\<bar> \<le> of_nat X"
    by simp
  have bU: "(0::rat) < of_nat b * of_nat U" using assms(2) Upos by simp
  have "divideDoubles a b - of_nat a / of_nat b = (of_nat P - of_nat X) / (of_nat b * of_nat U)"
    using assms(2) Upos by (simp add: shape M_def U_def D_def P_def X_def field_simps)
  then have "2 ^ 53 * \<bar>divideDoubles a b - of_nat a / of_nat b\<bar>
      = (2 ^ 53 * \<bar>(of_nat P - of_nat X :: rat)\<bar>) / (of_nat b * of_nat U)"
    using bU by (simp add: abs_divide abs_mult)
  also have "\<dots> \<le> of_nat X / (of_nat b * of_nat U)"
    using r bU by (simp add: divide_right_mono)
  also have "\<dots> = of_nat a / of_nat b" using Upos by (simp add: X_def)
  finally show ?thesis .
qed

lemma roundToDouble_pos: "0 < n \<Longrightarrow> 0 < roundToDouble n"
proof (rule ccontr)
  assume "0 < n" and "\<not> 0 < roundToDouble n"
  then have "roundToDouble n = 0" by simp
  with roundToDouble_error [of n] have "2 ^ 53 * int n \<le> int n" by simp
  with \<open>0 < n\<close> show False by simp
qed

lemma roundToDouble_le: "roundToDouble n \<le> 2 * n"
proof -
  have "2 ^ 53 * \<bar>int (roundToDouble n) - int n\<bar> \<le> int n" by (rule roundToDouble_error)
  then have "\<bar>int (roundToDouble n) - int n\<bar> \<le> int n" by simp
  then show ?thesis by linarith
qed

section \<open>Properties of the decimal rendering\<close>

lemma digit_cases:
  assumes "d < 10"
  shows "isDigit (digit d) \<and> digitValue (digit d) = d \<and> (digit d = CHR ''0'' \<longleftrightarrow> d = 0)"
proof -
  from assms have "d = 0 \<or> d = 1 \<or> d = 2 \<or> d = 3 \<or> d = 4 \<or> d = 5 \<or> d = 6
    \<or> d = 7 \<or> d = 8 \<or> d = 9" by arith
  then show ?thesis by (elim disjE) (simp_all add: digit_def digitValue_def isDigit_def)
qed

lemma toString_nonempty: "toString n \<noteq> []"
  by (subst toString.simps) simp

lemma toString_digits: "list_all isDigit (toString n)"
proof (induction n rule: toString.induct)
  case (1 n)
  show ?case
  proof (cases "n < 10")
    case True
    then show ?thesis using digit_cases [of n] by (subst toString.simps) simp
  next
    case False
    with 1 have "list_all isDigit (toString (n div 10))" by simp
    moreover have "isDigit (digit (n mod 10))" using digit_cases [of "n mod 10"] by simp
    ultimately show ?thesis using False by (subst toString.simps) simp
  qed
qed

lemma toString_value: "decimalValue (toString n) = n"
proof (induction n rule: toString.induct)
  case (1 n)
  show ?case
  proof (cases "n < 10")
    case True
    then show ?thesis using digit_cases [of n]
      by (subst toString.simps) (simp add: decimalValue_def)
  next
    case False
    with 1 have "decimalValue (toString (n div 10)) = n div 10" by simp
    moreover have "digitValue (digit (n mod 10)) = n mod 10" using digit_cases [of "n mod 10"] by simp
    ultimately show ?thesis using False
      by (subst toString.simps) (simp add: decimalValue_def)
  qed
qed

lemma toString_leading: "0 < n \<Longrightarrow> hd (toString n) \<noteq> CHR ''0''"
proof (induction n rule: toString.induct)
  case (1 n)
  show ?case
  proof (cases "n < 10")
    case True
    with 1(2) show ?thesis using digit_cases [of n] by (subst toString.simps) simp
  next
    case False
    then have "0 < n div 10" by simp
    with 1(1) False have "hd (toString (n div 10)) \<noteq> CHR ''0''" by simp
    then show ?thesis using False toString_nonempty [of "n div 10"]
      by (subst toString.simps) simp
  qed
qed

lemma toString_denotes: "denotes (toString n) n"
proof -
  have "hd (toString n) = CHR ''0'' \<longrightarrow> toString n = ''0''"
  proof (cases "n = 0")
    case True
    then show ?thesis by (simp add: toString.simps digit_def)
  next
    case False
    then show ?thesis using toString_leading [of n] by simp
  qed
  then show ?thesis
    by (simp add: denotes_def isDecimal_def toString_nonempty toString_digits toString_value)
qed

section \<open>Properties of the script's functions\<close>

text \<open>The percentage \<^verbatim>\<open>progressString\<close> prints for a positive total.\<close>

lemma percentage:
  assumes "t < 2 ^ 53" and "0 < m"
  shows "\<exists>P. toFixed0 (js_div (js_mul 100 t) m) = toString P \<and> P < 10 ^ 21
           \<and> \<bar>of_nat P - 100 * of_nat t / of_nat m\<bar>
               \<le> (1 / 2 + 300 * of_nat t / (2 ^ 53 * of_nat m) :: rat)
           \<and> (100 * t < 2 ^ 52 \<longrightarrow> P = (200 * t + m) div (2 * m))"
proof (cases "t = 0")
  case True
  then have "toFixed0 (js_div (js_mul 100 t) m) = toString 0"
    using assms(2) by (simp add: js_mul_def js_div_def roundToDouble_def)
  with True show ?thesis by (intro exI [of _ 0]) simp
next
  case False
  define n where "n = 100 * t"
  define a where "a = roundToDouble n"
  define y where "y = divideDoubles a m"
  define x :: rat where "x = of_nat a / of_nat m"
  define r :: rat where "r = of_nat n / of_nat m"
  define P where "P = nat \<lfloor>y + 1 / 2\<rfloor>"
  have npos: "0 < n" using False by (simp add: n_def)
  have apos: "0 < a" unfolding a_def using npos by (rule roundToDouble_pos)
  have mpos: "(0::rat) < of_nat m" using assms(2) by simp
  have fixed: "toFixed0 (js_div (js_mul 100 t) m) = toString P"
    using apos assms(2) by (simp add: js_mul_def js_div_def a_def n_def y_def P_def)
  have a2n: "a \<le> 2 * n" unfolding a_def by (rule roundToDouble_le)
  have xr: "x \<le> 2 * r" 
    using a2n mpos unfolding x_def r_def
    by (metis (no_types, opaque_lifting) divide_right_mono less_imp_le of_nat_mono of_nat_mult
        of_nat_numeral times_divide_eq_right)
  have ea: "2 ^ 53 * \<bar>x - r\<bar> \<le> r"
  proof -
    have "2 ^ 53 * \<bar>int a - int n\<bar> \<le> int n" unfolding a_def by (rule roundToDouble_error)
    then have "(of_int (2 ^ 53 * \<bar>int a - int n\<bar>) :: rat) \<le> of_int (int n)"
      by (rule of_int_le_iff [THEN iffD2])
    then have i: "2 ^ 53 * \<bar>(of_nat a - of_nat n :: rat)\<bar> \<le> of_nat n" by simp
    have "x - r = (of_nat a - of_nat n) / of_nat m" by (simp add: x_def r_def diff_divide_distrib)
    then have "2 ^ 53 * \<bar>x - r\<bar> = (2 ^ 53 * \<bar>(of_nat a - of_nat n :: rat)\<bar>) / of_nat m"
      using mpos by (simp add: abs_divide)
    also have "\<dots> \<le> of_nat n / of_nat m" using i mpos by (simp add: divide_right_mono)
    finally show ?thesis by (simp add: r_def)
  qed
  have ey: "2 ^ 53 * \<bar>y - x\<bar> \<le> x"
    unfolding y_def x_def using apos assms(2) by (rule divideDoubles_error)
  have rpos: "0 \<le> r" using mpos by (simp add: r_def)
  have xpos: "0 \<le> x" using mpos by (simp add: x_def)
  have ypos: "0 \<le> y"
  proof -
    from ey have "\<bar>y - x\<bar> \<le> x / 2 ^ 53" by (simp add: field_simps)
    also have "\<dots> \<le> x" using xpos by (simp add: field_simps)
    finally show ?thesis by linarith
  qed
  have Pfl: "(of_nat P :: rat) = of_int \<lfloor>y + 1 / 2\<rfloor>"
    using ypos by (simp add: P_def)
  have P1: "of_nat P \<le> y + 1 / 2" unfolding Pfl by (rule of_int_floor_le)
  have P2: "y + 1 / 2 < of_nat P + 1" unfolding Pfl by linarith
  define e where "e = r / 2 ^ 53"
  have yx: "\<bar>y - x\<bar> \<le> 2 * e"
  proof -
    from ey have "\<bar>y - x\<bar> \<le> x / 2 ^ 53" by (simp add: field_simps)
    also have "\<dots> \<le> 2 * r / 2 ^ 53" using xr by (simp add: divide_right_mono)
    finally show ?thesis by (simp add: e_def)
  qed
  have xr': "\<bar>x - r\<bar> \<le> e" using ea by (simp add: e_def field_simps)
  have "\<bar>of_nat P - r\<bar> \<le> 1 / 2 + 3 * e"
    using P1 P2 yx xr' by linarith
  then have "\<bar>of_nat P - r\<bar> \<le> 1 / 2 + 3 * r / 2 ^ 53" by (simp add: e_def)
  moreover have "r = 100 * of_nat t / of_nat m" by (simp add: r_def n_def)
  moreover have "3 * r / 2 ^ 53 = 300 * of_nat t / (2 ^ 53 * of_nat m)" by (simp add: r_def n_def)
  ultimately have err: "\<bar>of_nat P - 100 * of_nat t / of_nat m\<bar>
               \<le> (1 / 2 + 300 * of_nat t / (2 ^ 53 * of_nat m) :: rat)" by simp
  have "y \<le> 2 * of_nat a / of_nat m"
    unfolding y_def using apos assms(2) by (rule divideDoubles_le)
  also have "\<dots> = 2 * x" by (simp add: x_def)
  also have "\<dots> \<le> 4 * r" using xr by simp
  also have "\<dots> \<le> 4 * of_nat n"
  proof -
    have "n \<le> n * m" using assms(2) by (cases m) simp_all
    then have "(of_nat n :: rat) \<le> of_nat (n * m)" by (rule of_nat_mono)
    then have "r \<le> of_nat n" using mpos by (simp add: r_def field_simps)
    then show ?thesis by simp
  qed
  also have "\<dots> < 4 * (100 * 2 ^ 53)" using assms(1) by (simp add: n_def)
  finally have "y + 1 / 2 < 10 ^ 21 - 1" by simp
  with P1 have "(of_nat P :: rat) < of_nat (10 ^ 21)" by simp
  then have big: "P < 10 ^ 21" by (simp only: of_nat_less_iff)
  have exact: "P = (200 * t + m) div (2 * m)" if "100 * t < 2 ^ 52"
  proof -
    from that have "a = n" by (simp add: a_def n_def roundToDouble_def)
    with that npos assms(2) have "nat \<lfloor>divideDoubles a m + 1 / 2\<rfloor> = (2 * a + m) div (2 * m)"
      by (intro divideDoubles_percent) (simp_all add: n_def)
    with \<open>a = n\<close> show ?thesis by (simp add: P_def y_def n_def)
  qed
  from fixed big err exact show ?thesis by blast
qed

text \<open>
  The arithmetic and the function on some events. At 52671558475114 of 79205351090397
  the quotient in doubles is exactly 66.5, and 67 is printed, where the percentage
  itself lies just below 66.5. The last event is not one the fetcher emits.
\<close>

lemma js_div_examples:
  "js_div (js_mul 100 35041784) 70083568 = Finite 50
   \<and> js_div (js_mul 100 1) 8 = Finite (25 / 2)
   \<and> js_div (js_mul 100 52671558475114) 79205351090397 = Finite (133 / 2)
   \<and> js_div (js_mul 100 1) 3 = Finite (4691249611844267 / 140737488355328)
   \<and> js_div (js_mul 100 0) 0 = NaN
   \<and> js_div (js_mul 100 5) 0 = Infinity"
  by (simp add: js_mul_def roundToDouble_def js_div_def divideDoubles_def bitLength.simps
      roundHalfEven_def Let_def)

lemma toFixed0_examples:
  "toFixed0 (Finite 50) = ''50'' \<and> toFixed0 (Finite (25 / 2)) = ''13''
   \<and> toFixed0 (Finite (133 / 2)) = ''67''
   \<and> toFixed0 (Finite (4691249611844267 / 140737488355328)) = ''33''"
proof -
  have "nat \<lfloor>(50::rat) + 1 / 2\<rfloor> = 50" "nat \<lfloor>(25 / 2 :: rat) + 1 / 2\<rfloor> = 13"
    "nat \<lfloor>(133 / 2 :: rat) + 1 / 2\<rfloor> = 67"
    "nat \<lfloor>(4691249611844267 / 140737488355328 :: rat) + 1 / 2\<rfloor> = 33"
    by code_simp+
  then show ?thesis by (simp add: toString.simps digit_def)
qed

lemma progressString_examples:
  "progressString \<lparr>index = 0, fileName = ''elephant.mpg'', total = 3,
      currentFileTransferred = 35041784, currentFileTotal = Number 70083568\<rparr>
     = Inr ''35041784 of 70083568 50%''
   \<and> progressString \<lparr>index = 0, fileName = ''elephant.mpg'', total = 3,
      currentFileTransferred = 1, currentFileTotal = Number 8\<rparr>
     = Inr ''1 of 8 13%''
   \<and> progressString \<lparr>index = 0, fileName = ''elephant.mpg'', total = 3,
      currentFileTransferred = 1, currentFileTotal = Number 3\<rparr>
     = Inr ''1 of 3 33%''
   \<and> progressString \<lparr>index = 0, fileName = ''elephant.mpg'', total = 3,
      currentFileTransferred = 52671558475114, currentFileTotal = Number 79205351090397\<rparr>
     = Inr ''52671558475114 of 79205351090397 67%''
   \<and> progressString \<lparr>index = 0, fileName = ''elephant.mpg'', total = 3,
      currentFileTransferred = 4096, currentFileTotal = Undefined\<rparr>
     = Inr ''4096 of unknown''
   \<and> progressString \<lparr>index = 1, fileName = ''empty.bin'', total = 3,
      currentFileTransferred = 0, currentFileTotal = Number 0\<rparr>
     = Inr ''0 of 0 NaN%''
   \<and> progressString \<lparr>index = 1, fileName = ''empty.bin'', total = 3,
      currentFileTransferred = 5, currentFileTotal = Number 0\<rparr>
     = Inr ''5 of 0 Infinity%''
   \<and> progressString \<lparr>index = 1, fileName = ''empty.bin'', total = 3,
      currentFileTransferred = 5, currentFileTotal = Null\<rparr>
     = Inl TypeError"
proof -
  have "toString 35041784 = ''35041784''" "toString 70083568 = ''70083568''"
    "toString 52671558475114 = ''52671558475114''"
    "toString 79205351090397 = ''79205351090397''"
    "toString 4096 = ''4096''" "toString 0 = ''0''" "toString 1 = ''1''" "toString 3 = ''3''"
    "toString 5 = ''5''" "toString 8 = ''8''"
    by (simp_all add: toString.simps digit_def)
  then show ?thesis
    using js_div_examples toFixed0_examples by (simp add: progressString_def)
qed

text \<open>
  C9. On every progress event whose byte counts are integers below \<open>2 ^ 53\<close>,
  \<^verbatim>\<open>progressString\<close> returns a string and does not throw. When \<^verbatim>\<open>currentFileTotal\<close> is
  missing the string is \<^verbatim>\<open>"<n> of unknown"\<close>; when it is the number \<open>m\<close> the string is
  \<^verbatim>\<open>"<n> of <m> <p>%"\<close>. Here \<open><n>\<close> and \<open><m>\<close> are the decimal numerals of the two
  counts. The division is not guarded: when \<open>m\<close> is 0, \<open><p>\<close> is \<^verbatim>\<open>NaN\<close> (nothing
  transferred) or \<^verbatim>\<open>Infinity\<close> (something transferred). Otherwise \<open><p>\<close> is the decimal
  numeral of an integer below \<open>10 ^ 21\<close> that differs from the percentage \<open>100 t / m\<close>
  by at most a half and the rounding error of the two floating-point operations, and
  that is the percentage rounded to the nearest integer, a half rounded up, whenever
  \<open>100 t\<close> is below \<open>2 ^ 52\<close>.
\<close>

theorem progressString_total:
  assumes "currentFileTransferred event = t" and "t < 2 ^ 53" and "m < 2 ^ 53"
  shows "denotes (toString t) t \<and> denotes (toString m) m
     \<and> progressString (event\<lparr>currentFileTotal := Undefined\<rparr>)
         = Inr (toString t @ '' of unknown'')
     \<and> (\<exists>p. progressString (event\<lparr>currentFileTotal := Number m\<rparr>)
               = Inr (toString t @ '' of '' @ toString m @ '' '' @ p @ ''%'')
          \<and> (if m = 0 then p = (if t = 0 then ''NaN'' else ''Infinity'')
              else \<exists>P. p = toString P \<and> denotes p P \<and> P < 10 ^ 21
                     \<and> \<bar>of_nat P - 100 * of_nat t / of_nat m\<bar>
                         \<le> (1 / 2 + 300 * of_nat t / (2 ^ 53 * of_nat m) :: rat)
                     \<and> (100 * t < 2 ^ 52 \<longrightarrow> P = (200 * t + m) div (2 * m))))"
proof (intro conjI)
  show "denotes (toString t) t" and "denotes (toString m) m" by (rule toString_denotes)+
  show "progressString (event\<lparr>currentFileTotal := Undefined\<rparr>) = Inr (toString t @ '' of unknown'')"
    using assms(1) by (simp add: progressString_def)
  define p where "p = toFixed0 (js_div (js_mul 100 t) m)"
  have res: "progressString (event\<lparr>currentFileTotal := Number m\<rparr>)
      = Inr (toString t @ '' of '' @ toString m @ '' '' @ p @ ''%'')"
    using assms(1) by (simp add: progressString_def p_def)
  have "if m = 0 then p = (if t = 0 then ''NaN'' else ''Infinity'')
        else \<exists>P. p = toString P \<and> denotes p P \<and> P < 10 ^ 21
               \<and> \<bar>of_nat P - 100 * of_nat t / of_nat m\<bar>
                   \<le> (1 / 2 + 300 * of_nat t / (2 ^ 53 * of_nat m) :: rat)
               \<and> (100 * t < 2 ^ 52 \<longrightarrow> P = (200 * t + m) div (2 * m))"
  proof (cases "m = 0")
    case True
    have "js_mul 100 t = 0 \<longleftrightarrow> t = 0"
      using roundToDouble_pos [of "100 * t"] by (auto simp: js_mul_def roundToDouble_def)
    with True show ?thesis by (simp add: p_def js_div_def)
  next
    case False
    then have "0 < m" by simp
    from percentage [OF assms(2) this] obtain P where
      "p = toString P" "P < 10 ^ 21"
      "\<bar>of_nat P - 100 * of_nat t / of_nat m\<bar> \<le> (1 / 2 + 300 * of_nat t / (2 ^ 53 * of_nat m) :: rat)"
      "100 * t < 2 ^ 52 \<longrightarrow> P = (200 * t + m) div (2 * m)"
      unfolding p_def by blast
    moreover from this(1) have "denotes p P" by (simp add: toString_denotes)
    ultimately show ?thesis using False by auto
  qed
  with res show "\<exists>p. progressString (event\<lparr>currentFileTotal := Number m\<rparr>)
               = Inr (toString t @ '' of '' @ toString m @ '' '' @ p @ ''%'')
          \<and> (if m = 0 then p = (if t = 0 then ''NaN'' else ''Infinity'')
              else \<exists>P. p = toString P \<and> denotes p P \<and> P < 10 ^ 21
                     \<and> \<bar>of_nat P - 100 * of_nat t / of_nat m\<bar>
                         \<le> (1 / 2 + 300 * of_nat t / (2 ^ 53 * of_nat m) :: rat)
                     \<and> (100 * t < 2 ^ 52 \<longrightarrow> P = (200 * t + m) div (2 * m)))"
    by blast
qed

theorem progressString_total_witness:
  "(35041784 :: nat) < 2 ^ 53 \<and> (70083568 :: nat) < 2 ^ 53 \<and> 100 * (35041784 :: nat) < 2 ^ 52
   \<and> progressString \<lparr>index = 0, fileName = ''elephant.mpg'', total = 3,
        currentFileTransferred = 35041784, currentFileTotal = Undefined\<rparr>
       = Inr ''35041784 of unknown''
   \<and> progressString \<lparr>index = 0, fileName = ''elephant.mpg'', total = 3,
        currentFileTransferred = 35041784, currentFileTotal = Number 70083568\<rparr>
       = Inr ''35041784 of 70083568 50%''
   \<and> progressString \<lparr>index = 0, fileName = ''elephant.mpg'', total = 3,
        currentFileTransferred = 35041784, currentFileTotal = Number 0\<rparr>
       = Inr ''35041784 of 0 Infinity%''"
proof -
  let ?t = "35041784 :: nat"
  let ?m = "70083568 :: nat"
  let ?ev = "\<lparr>index = 0, fileName = ''elephant.mpg'', total = 3,
        currentFileTransferred = ?t, currentFileTotal = Undefined\<rparr>"
  have h1: "currentFileTransferred ?ev = ?t" by simp
  have h2: "?t < 2 ^ 53" by simp
  have h3: "?m < 2 ^ 53" by simp
  have h4: "(0 :: nat) < 2 ^ 53" by simp
  have small: "100 * ?t < 2 ^ 52" by simp
  have st: "toString ?t = ''35041784''" by (simp add: toString.simps digit_def)
  have sm: "toString ?m = ''70083568''" by (simp add: toString.simps digit_def)
  have s0: "toString 0 = ''0''" by (simp add: toString.simps digit_def)
  have s50: "toString ((200 * ?t + ?m) div (2 * ?m)) = ''50''" by (simp add: toString.simps digit_def)
  from progressString_total [OF h1 h2 h3]
  have undef: "progressString (?ev\<lparr>currentFileTotal := Undefined\<rparr>) = Inr (toString ?t @ '' of unknown'')"
    and "\<exists>p. progressString (?ev\<lparr>currentFileTotal := Number ?m\<rparr>)
               = Inr (toString ?t @ '' of '' @ toString ?m @ '' '' @ p @ ''%'')
          \<and> (\<exists>P. p = toString P \<and> (100 * ?t < 2 ^ 52 \<longrightarrow> P = (200 * ?t + ?m) div (2 * ?m)))"
    by auto
  with small have half: "progressString (?ev\<lparr>currentFileTotal := Number ?m\<rparr>)
               = Inr (toString ?t @ '' of '' @ toString ?m @ '' '' @ toString ((200 * ?t + ?m) div (2 * ?m)) @ ''%'')"
    by auto
  from progressString_total [OF h1 h2 h4]
  have zero: "progressString (?ev\<lparr>currentFileTotal := Number 0\<rparr>)
               = Inr (toString ?t @ '' of '' @ toString 0 @ '' '' @ ''Infinity'' @ ''%'')"
    by auto
  from undef half zero h2 h3 small show ?thesis
    unfolding st sm s0 s50 by simp
qed

lemma mkdirSync_flat_again:
  "mkdirSync_flat s p = Inr s' \<Longrightarrow> \<exists>x. mkdirSync_flat s' p = Inl x \<and> code x = Some ''EEXIST''"
  by (auto simp: mkdirSync_flat_def split: if_splits)

text \<open>
  C10. \<^verbatim>\<open>ensureDirectoryExists\<close> returns normally when \<^verbatim>\<open>mkdirSync\<close> creates the
  directory and when it fails with code \<^verbatim>\<open>EEXIST\<close> (the file system is then left as it
  was); it throws exactly when \<^verbatim>\<open>mkdirSync\<close> fails with an error whose code is not
  \<^verbatim>\<open>EEXIST\<close>, and throws that error. On a file system where \<^verbatim>\<open>mkdir\<close> of a path just
  created fails with \<^verbatim>\<open>EEXIST\<close>, a second call on the same path returns normally and
  changes nothing.
\<close>

theorem ensureDirectoryExists_contract:
  "(mkdirSync fs path = Inr fs' \<longrightarrow> ensureDirectoryExists mkdirSync fs path = Inr fs')
   \<and> (mkdirSync fs path = Inl err \<and> code err = Some ''EEXIST''
        \<longrightarrow> ensureDirectoryExists mkdirSync fs path = Inr fs)
   \<and> (ensureDirectoryExists mkdirSync fs path = Inl e
        \<longleftrightarrow> mkdirSync fs path = Inl e \<and> code e \<noteq> Some ''EEXIST'')
   \<and> ((\<forall>s s'. mkdirSync s path = Inr s'
            \<longrightarrow> (\<exists>x. mkdirSync s' path = Inl x \<and> code x = Some ''EEXIST''))
        \<longrightarrow> ensureDirectoryExists mkdirSync fs path = Inr fs1
        \<longrightarrow> ensureDirectoryExists mkdirSync fs1 path = Inr fs1)"
proof (intro conjI impI)
  assume "mkdirSync fs path = Inr fs'"
  then show "ensureDirectoryExists mkdirSync fs path = Inr fs'"
    by (simp add: ensureDirectoryExists_def)
next
  assume "mkdirSync fs path = Inl err \<and> code err = Some ''EEXIST''"
  then show "ensureDirectoryExists mkdirSync fs path = Inr fs"
    by (simp add: ensureDirectoryExists_def)
next
  show "ensureDirectoryExists mkdirSync fs path = Inl e
        \<longleftrightarrow> mkdirSync fs path = Inl e \<and> code e \<noteq> Some ''EEXIST''"
    by (auto simp: ensureDirectoryExists_def split: sum.splits if_splits)
next
  assume again: "\<forall>s s'. mkdirSync s path = Inr s'
            \<longrightarrow> (\<exists>x. mkdirSync s' path = Inl x \<and> code x = Some ''EEXIST'')"
    and first: "ensureDirectoryExists mkdirSync fs path = Inr fs1"
  show "ensureDirectoryExists mkdirSync fs1 path = Inr fs1"
  proof (cases "mkdirSync fs path")
    case (Inr s')
    with first have "fs1 = s'" by (simp add: ensureDirectoryExists_def)
    with Inr again obtain x where "mkdirSync fs1 path = Inl x" "code x = Some ''EEXIST''"
      by blast
    then show ?thesis by (simp add: ensureDirectoryExists_def)
  next
    case (Inl x)
    with first have "fs1 = fs" "code x = Some ''EEXIST''"
      by (auto simp: ensureDirectoryExists_def split: if_splits)
    with Inl show ?thesis by (simp add: ensureDirectoryExists_def)
  qed
qed

theorem ensureDirectoryExists_contract_witness:
  "ensureDirectoryExists mkdirSync_flat \<lparr>existing = [''/storage/sd''], readonly = False\<rparr>
      ''/storage/sd/examplePool''
     = Inr \<lparr>existing = [''/storage/sd/examplePool'', ''/storage/sd''], readonly = False\<rparr>
   \<and> ensureDirectoryExists mkdirSync_flat
        \<lparr>existing = [''/storage/sd/examplePool'', ''/storage/sd''], readonly = False\<rparr>
        ''/storage/sd/examplePool''
     = Inr \<lparr>existing = [''/storage/sd/examplePool'', ''/storage/sd''], readonly = False\<rparr>
   \<and> ensureDirectoryExists mkdirSync_flat \<lparr>existing = [''/storage/sd''], readonly = True\<rparr>
        ''/storage/sd/examplePool''
     = Inl \<lparr>message = ''read-only file system'', code = Some ''EROFS''\<rparr>"
proof -
  let ?p = "''/storage/sd/examplePool''"
  let ?fs0 = "\<lparr>existing = [''/storage/sd''], readonly = False\<rparr>"
  let ?fs1 = "\<lparr>existing = [?p, ''/storage/sd''], readonly = False\<rparr>"
  let ?ro = "\<lparr>existing = [''/storage/sd''], readonly = True\<rparr>"
  let ?erofs = "\<lparr>message = ''read-only file system'', code = Some ''EROFS''\<rparr>"
  have created: "mkdirSync_flat ?fs0 ?p = Inr ?fs1"
    by (simp add: mkdirSync_flat_def)
  have failed: "mkdirSync_flat ?ro ?p = Inl ?erofs \<and> code ?erofs \<noteq> Some ''EEXIST''"
    by (simp add: mkdirSync_flat_def)
  have again: "\<forall>s s'. mkdirSync_flat s ?p = Inr s'
      \<longrightarrow> (\<exists>x. mkdirSync_flat s' ?p = Inl x \<and> code x = Some ''EEXIST'')"
    using mkdirSync_flat_again by blast
  have first: "ensureDirectoryExists mkdirSync_flat ?fs0 ?p = Inr ?fs1"
    using ensureDirectoryExists_contract [of mkdirSync_flat ?fs0 ?p ?fs1] created by blast
  have second: "ensureDirectoryExists mkdirSync_flat ?fs1 ?p = Inr ?fs1"
    using ensureDirectoryExists_contract [of mkdirSync_flat ?fs0 ?p _ _ _ ?fs1] again first
    by blast
  have third: "ensureDirectoryExists mkdirSync_flat ?ro ?p = Inl ?erofs"
    using ensureDirectoryExists_contract [of mkdirSync_flat ?ro ?p _ _ ?erofs] failed by blast
  from first second third show ?thesis by blast
qed

end
